theory Spec2Isabelle
  imports Complex_Main "HOL-Library.Word"
begin

section \<open>Data model of FrameUtils.hpp\<close>

text \<open>
  Scalars are kept as the bit patterns the C++ types hold: \<open>float\<close> is an IEEE-754
  binary32 pattern, \<open>double\<close> a binary64 pattern, \<open>int\<close> a 32-bit two's complement
  word and \<open>uint64_t\<close> a 64-bit word.
\<close>

type_synonym float32 = "32 word"
type_synonym float64 = "64 word"
type_synonym cint = "32 word"
type_synonym uint64 = "64 word"

section \<open>Printing a \<open>float\<close> with \<open>std::fixed << std::setprecision(6)\<close>\<close>

text \<open>
  The fields of a binary32 pattern: bit 31 is the sign, bits 30..23 the biased exponent,
  bits 22..0 the fraction.
\<close>

definition f_sign :: "float32 \<Rightarrow> bool" where
  "f_sign w \<longleftrightarrow> 2 ^ 31 \<le> unat w"

definition f_exp :: "float32 \<Rightarrow> nat" where
  "f_exp w = (unat w div 2 ^ 23) mod 256"

definition f_frac :: "float32 \<Rightarrow> nat" where
  "f_frac w = unat w mod 2 ^ 23"

definition f_finite :: "float32 \<Rightarrow> bool" where
  "f_finite w \<longleftrightarrow> f_exp w \<noteq> 255"

text \<open>
  Every finite binary32 value is a whole number of units of \<open>2\<^sup>-\<^sup>1\<^sup>4\<^sup>9\<close>: a subnormal
  is \<open>frac\<close> units, a normal number with biased exponent \<open>e\<close> is
  \<open>(2\<^sup>2\<^sup>3 + frac) * 2\<^sup>e\<^sup>-\<^sup>1\<close> units.
\<close>

definition f_units :: "float32 \<Rightarrow> nat" where
  "f_units w =
     (if f_exp w = 0 then f_frac w else (2 ^ 23 + f_frac w) * 2 ^ (f_exp w - 1))"

definition float_val :: "float32 \<Rightarrow> rat" where
  "float_val w = (if f_sign w then - 1 else 1) * (of_nat (f_units w) / 2 ^ 149)"

text \<open>Nearest integer to \<open>n / d\<close>, a tie going to the even neighbour.\<close>

definition round_half_even :: "nat \<Rightarrow> nat \<Rightarrow> nat" where
  "round_half_even n d =
     (let q = n div d; r = n mod d
      in if d < 2 * r \<or> (2 * r = d \<and> odd q) then q + 1 else q)"

text \<open>The magnitude in millionths, correctly rounded: what six decimals can show.\<close>

definition scaled6 :: "float32 \<Rightarrow> nat" where
  "scaled6 w = round_half_even (f_units w * 10 ^ 6) (2 ^ 149)"

definition digit :: "nat \<Rightarrow> char" where
  "digit d = ''0123456789'' ! d"

text \<open>The decimal numeral of a natural number, without leading zeros.\<close>

fun show_nat :: "nat \<Rightarrow> string" where
  "show_nat n = (if n < 10 then [digit n] else show_nat (n div 10) @ [digit (n mod 10)])"

text \<open>The \<open>k\<close> low decimal digits of \<open>n\<close>, padded with zeros on the left.\<close>

fun digits :: "nat \<Rightarrow> nat \<Rightarrow> string" where
  "digits 0 n = []"
| "digits (Suc k) n = digits k (n div 10) @ [digit (n mod 10)]"

text \<open>A count of millionths as integer part, decimal point and six decimals.\<close>

definition show_millionths :: "nat \<Rightarrow> string" where
  "show_millionths q = show_nat (q div 10 ^ 6) @ ''.'' @ digits 6 (q mod 10 ^ 6)"

text \<open>
  What \<open>oss << std::fixed << std::setprecision(6) << frameNum\<close> appends for a
  \<open>float\<close>: the stream formats the value as \<open>printf("%.6f")\<close> does, in the classic
  locale a default-constructed stream has unless the program replaced the global one.
  The value is converted exactly and rounded to six decimals, ties to even (the
  default rounding mode); a set sign bit prints as a minus sign, also on zero;
  infinities and NaNs print as \<open>inf\<close> and \<open>nan\<close>.
\<close>

definition fixed6 :: "float32 \<Rightarrow> string" where
  "fixed6 w =
     (if f_sign w then ''-'' else '''') @
     (if f_finite w then show_millionths (scaled6 w)
      else if f_frac w = 0 then ''inf'' else ''nan'')"

section \<open>formatKey\<close>

definition formatKey :: "string \<Rightarrow> float32 \<Rightarrow> bool \<Rightarrow> string" where
  "formatKey f frameNum' hasZoom =
     (let zStr = (if hasZoom then ''-z'' else '''')
      in f @ ''-'' @ fixed6 frameNum' @ zStr)"

section \<open>The two parts of a printed number, and numbers that are apart\<close>

text \<open>
  The text \<open>fixed6\<close> prints is a sign part, empty or a minus sign by the sign bit,
  followed by a magnitude part that depends on the other bits only.
\<close>

definition f_sign_text :: "float32 \<Rightarrow> string" where
  "f_sign_text w = (if f_sign w then ''-'' else '''')"

definition f_mag_text :: "float32 \<Rightarrow> string" where
  "f_mag_text w =
     (if f_finite w then show_millionths (scaled6 w)
      else if f_frac w = 0 then ''inf'' else ''nan'')"

definition f_nan :: "float32 \<Rightarrow> bool" where
  "f_nan w \<longleftrightarrow> \<not> f_finite w \<and> f_frac w \<noteq> 0"

text \<open>
  Two frame numbers differ by at least \<open>10\<^sup>-\<^sup>6\<close>: neither is a NaN, and either both
  are finite with values that far apart, or one is infinite and the other is not the
  same infinity.
\<close>

definition apart6 :: "float32 \<Rightarrow> float32 \<Rightarrow> bool" where
  "apart6 n1 n2 \<longleftrightarrow>
     \<not> f_nan n1 \<and> \<not> f_nan n2 \<and>
     (if f_finite n1 \<and> f_finite n2 then 1 / 10 ^ 6 \<le> \<bar>float_val n1 - float_val n2\<bar>
      else \<not> (\<not> f_finite n1 \<and> \<not> f_finite n2 \<and> f_sign n1 = f_sign n2))"

section \<open>Converting \<open>int\<close> to \<open>float\<close>\<close>

text \<open>The number of binary digits of a natural number.\<close>

fun bitlen :: "nat \<Rightarrow> nat" where
  "bitlen n = (if n = 0 then 0 else Suc (bitlen (n div 2)))"

text \<open>A binary32 pattern from its sign, biased exponent and fraction.\<close>

definition f_encode :: "bool \<Rightarrow> nat \<Rightarrow> nat \<Rightarrow> float32" where
  "f_encode s e m = of_nat ((if s then 2 ^ 31 else 0) + e * 2 ^ 23 + m)"

text \<open>
  The implicit conversion of an \<open>int\<close> to \<open>float\<close>. Up to 24 significant bits the
  value is kept. Beyond that the low bits are rounded away, to the nearest binary32 value
  with ties to even (the language leaves the direction to the implementation; this is the
  default rounding mode of the hardware), and a significand rounded up to \<open>2\<^sup>2\<^sup>4\<close> moves
  to the next exponent.
\<close>

definition float_of_int :: "int \<Rightarrow> float32" where
  "float_of_int i =
     (if i = 0 then 0
      else
        let a = nat \<bar>i\<bar>; k = bitlen a
        in if k \<le> 24 then f_encode (i < 0) (k + 126) (a * 2 ^ (24 - k) - 2 ^ 23)
           else
             let sh = k - 24; m = round_half_even a (2 ^ sh)
             in if m = 2 ^ 24 then f_encode (i < 0) (sh + 151) 0
                else f_encode (i < 0) (sh + 150) (m - 2 ^ 23))"

section \<open>Frame descriptors\<close>

record ImageMotion =
  motion_x :: float64
  motion_y :: float64
  motion_dt :: uint64
  motion_valid :: bool

text \<open>
  A \<open>std::shared_ptr<T>\<close> is either null or the address of a live object. Frame
  descriptors live in a store that maps addresses to their contents; two pointers are the
  same descriptor exactly when they hold the same address. The pixel vector behind
  \<open>data\<close> is kept as an address only: nothing in this header reads it.
\<close>

datatype shared_ptr = Null | Ptr nat

record FrameInfo =
  frameNum :: float32
  numFrames :: cint
  fps :: float64
  totalBytes :: cint
  totalFrames :: cint
  data :: shared_ptr
  width :: cint
  height :: cint
  linesize :: cint
  timestamp :: uint64
  tsMicro :: uint64
  "file" :: string
  debug :: string
  motion :: ImageMotion
  key :: string

type_synonym heap = "nat \<Rightarrow> FrameInfo"

section \<open>The FrameInfo constructor\<close>

text \<open>
  \<open>FrameInfo(int frameNum, const std::string &file)\<close>. The members it does not name
  keep whatever the storage held: \<open>u\<close> stands for that. \<open>data\<close>, \<open>debug\<close> and \<open>key\<close>
  are default-constructed, \<open>motion\<close> has its default member initialiser, and inside
  the body \<open>frameNum\<close> is the \<open>int\<close> parameter, converted at the call of \<open>formatKey\<close>.
\<close>

definition FrameInfo_ctor :: "FrameInfo \<Rightarrow> cint \<Rightarrow> string \<Rightarrow> FrameInfo" where
  "FrameInfo_ctor u frameNum' file' =
     u\<lparr>frameNum := float_of_int (sint frameNum'),
       data := Null,
       file := file',
       debug := '''',
       motion := \<lparr>motion_x = 0, motion_y = 0, motion_dt = 0, motion_valid = False\<rparr>,
       key := formatKey file' (float_of_int (sint frameNum')) False\<rparr>"

section \<open>FrameInfoList\<close>

text \<open>Dereferencing a null \<open>shared_ptr\<close> is undefined behaviour; the model reports it.\<close>

datatype fault = NullDeref

definition maxSize :: nat where
  "maxSize = 32"

text \<open>
  \<open>std::find_if\<close>: walks the list from the front and stops at the first element whose
  predicate holds. The iterator it returns is the position of that element, and
  \<open>end()\<close> is the length of the list. The predicate is only evaluated on the elements
  visited, so a fault in it only shows on those.
\<close>

fun find_if :: "('a \<Rightarrow> fault + bool) \<Rightarrow> 'a list \<Rightarrow> fault + nat" where
  "find_if P [] = Inr 0"
| "find_if P (f # fs) =
     (case P f of
        Inl e \<Rightarrow> Inl e
      | Inr True \<Rightarrow> Inr 0
      | Inr False \<Rightarrow> (case find_if P fs of Inl e \<Rightarrow> Inl e | Inr i \<Rightarrow> Inr (Suc i)))"

text \<open>The lambda of \<open>addFrame\<close>: \<open>f->key == frame->key\<close>, both sides dereferenced.\<close>

definition same_key :: "heap \<Rightarrow> shared_ptr \<Rightarrow> shared_ptr \<Rightarrow> fault + bool" where
  "same_key h frame f =
     (case f of
        Null \<Rightarrow> Inl NullDeref
      | Ptr a \<Rightarrow> (case frame of
                   Null \<Rightarrow> Inl NullDeref
                 | Ptr b \<Rightarrow> Inr (key (h a) = key (h b))))"

text \<open>The lambda of \<open>getFrame\<close>: \<open>f->key == key\<close>.\<close>

definition has_key :: "heap \<Rightarrow> string \<Rightarrow> shared_ptr \<Rightarrow> fault + bool" where
  "has_key h k f =
     (case f of
        Null \<Rightarrow> Inl NullDeref
      | Ptr a \<Rightarrow> Inr (key (h a) = k))"

text \<open>\<open>std::list::erase(it)\<close> for an iterator that is not \<open>end()\<close>.\<close>

definition erase :: "nat \<Rightarrow> 'a list \<Rightarrow> 'a list" where
  "erase i fl = take i fl @ drop (Suc i) fl"

text \<open>
  \<open>addFrame\<close>: the frame list is most recent first. Neither method writes through a
  pointer, so the store is read only and only the list is returned.
\<close>

definition addFrame :: "heap \<Rightarrow> shared_ptr \<Rightarrow> shared_ptr list \<Rightarrow> fault + shared_ptr list" where
  "addFrame h frame frameList =
     (case find_if (same_key h frame) frameList of
        Inl e \<Rightarrow> Inl e
      | Inr it \<Rightarrow>
          Inr (frame #
            (if it \<noteq> length frameList then erase it frameList
             else if length frameList \<ge> maxSize then butlast frameList
             else frameList)))"

text \<open>
  \<open>getFrame\<close> is a non-const member, so the model returns the list it leaves behind
  next to the pointer it returns.
\<close>

definition getFrame ::
  "heap \<Rightarrow> string \<Rightarrow> shared_ptr list \<Rightarrow> fault + (shared_ptr \<times> shared_ptr list)" where
  "getFrame h k frameList =
     (case find_if (has_key h k) frameList of
        Inl e \<Rightarrow> Inl e
      | Inr it \<Rightarrow>
          if it \<noteq> length frameList then Inr (frameList ! it, frameList)
          else Inr (Null, frameList))"

text \<open>A caller's sequence of operations on one cache over a fixed store.\<close>

datatype op = AddFrame shared_ptr | GetFrame string

fun is_add :: "op \<Rightarrow> bool" where
  "is_add (AddFrame p) = True"
| "is_add (GetFrame k) = False"

definition step :: "heap \<Rightarrow> op \<Rightarrow> shared_ptr list \<Rightarrow> fault + shared_ptr list" where
  "step h c fl =
     (case c of
        AddFrame p \<Rightarrow> addFrame h p fl
      | GetFrame k \<Rightarrow> (case getFrame h k fl of Inl e \<Rightarrow> Inl e | Inr r \<Rightarrow> Inr (snd r)))"

fun exec :: "heap \<Rightarrow> op list \<Rightarrow> shared_ptr list \<Rightarrow> fault + shared_ptr list" where
  "exec h [] fl = Inr fl"
| "exec h (c # cs) fl = (case step h c fl of Inl e \<Rightarrow> Inl e | Inr fl' \<Rightarrow> exec h cs fl')"

text \<open>The key an entry is filed under; a null entry has none.\<close>

fun key_of :: "heap \<Rightarrow> shared_ptr \<Rightarrow> string option" where
  "key_of h Null = None"
| "key_of h (Ptr a) = Some (key (h a))"

text \<open>
  The keys inserted by a sequence of operations, most recent first. Lookups leave no
  trace in it.
\<close>

fun inserted :: "heap \<Rightarrow> op list \<Rightarrow> string option list" where
  "inserted h [] = []"
| "inserted h (AddFrame p # cs) = inserted h cs @ [key_of h p]"
| "inserted h (GetFrame k # cs) = inserted h cs"

text \<open>
  How many insertions ago a key was last inserted: its position in the history, most
  recent first.
\<close>

fun age :: "'a \<Rightarrow> 'a list \<Rightarrow> nat" where
  "age k [] = 0"
| "age k (x # xs) = (if x = k then 0 else Suc (age k xs))"

section \<open>Declarations without a body\<close>

text \<open>
  The header declares \<open>generateInterpolatedFrame\<close>, returning one
  \<open>const std::shared_ptr<FrameInfo>\<close>, and \<open>sharpenFrame\<close>, returning nothing. Their
  bodies are in no file of the sources, so there is no function to model; the structure
  \<open>InterpResult\<close> is declared but no declaration uses it.
\<close>

record InterpResult =
  blendedFrame :: shared_ptr
  shiftedFrame :: shared_ptr

section \<open>Invariant of the frame list\<close>

text \<open>
  What every list built by \<open>addFrame\<close> and \<open>getFrame\<close> from the empty list satisfies,
  relative to the history \<open>hist\<close> of inserted keys (most recent first): a null pointer can
  only be the sole entry (it can only be inserted into the empty list, and every later
  call dereferences it), the entries are in strictly increasing age of their last
  insertion, and there are at most \<open>maxSize\<close> of them.
\<close>

definition cache_inv :: "heap \<Rightarrow> shared_ptr list \<Rightarrow> string option list \<Rightarrow> bool" where
  "cache_inv h fl hist \<longleftrightarrow>
     (Null \<in> set fl \<longrightarrow> fl = [Null]) \<and>
     sorted_wrt (\<lambda>a b. age a hist < age b hist) (map (key_of h) fl) \<and>
     length fl \<le> maxSize"

section \<open>A concrete store\<close>

text \<open>Storage filled with zero bytes, for the members the constructor leaves alone.\<close>

definition zero_frame :: FrameInfo where
  "zero_frame =
     \<lparr>frameNum = 0, numFrames = 0, fps = 0, totalBytes = 0, totalFrames = 0, data = Null,
      width = 0, height = 0, linesize = 0, timestamp = 0, tsMicro = 0, file = '''',
      debug = '''', motion = \<lparr>motion_x = 0, motion_y = 0, motion_dt = 0, motion_valid = False\<rparr>,
      key = ''''\<rparr>"

text \<open>
  A store in which the object at address \<open>a\<close> is \<open>FrameInfo(a mod 100, "v")\<close>: addresses
  below 100 hold distinct frames of one file, and address \<open>a + 100\<close> holds a second
  descriptor of the frame at \<open>a\<close>.
\<close>

definition demo_heap :: heap where
  "demo_heap a = FrameInfo_ctor zero_frame (of_nat (a mod 100)) ''v''"

text \<open>
  Thirty-two distinct frames inserted one after the other, with two lookups of the first
  frame on the way, and the list this leaves behind.
\<close>

definition demo_fill :: "op list" where
  "demo_fill =
     map (\<lambda>a. AddFrame (Ptr a)) [0, 1, 2, 3, 4, 5, 6, 7, 8, 9, 10, 11, 12, 13, 14, 15] @
     [GetFrame (key (demo_heap 0))] @
     map (\<lambda>a. AddFrame (Ptr a)) [16, 17, 18, 19, 20, 21, 22, 23, 24, 25, 26, 27, 28, 29, 30, 31] @
     [GetFrame (key (demo_heap 0))]"

definition demo_full :: "shared_ptr list" where
  "demo_full =
     map Ptr [31, 30, 29, 28, 27, 26, 25, 24, 23, 22, 21, 20, 19, 18, 17, 16,
              15, 14, 13, 12, 11, 10, 9, 8, 7, 6, 5, 4, 3, 2, 1, 0]"

section \<open>Decimal numerals, rounding and the shape of keys\<close>

declare show_nat.simps [simp del] bitlen.simps [simp del]

lemma digits_numeral:
  "digits (numeral k) n = digits (pred_numeral k) (n div 10) @ [digit (n mod 10)]"
  by (simp only: numeral_eq_Suc [of k] digits.simps)

lemmas float_eval = fixed6_def show_millionths_def f_sign_def f_finite_def scaled6_def round_half_even_def
  f_units_def f_exp_def f_frac_def digit_def digits_numeral formatKey_def float_val_def
  float_of_int_def f_encode_def Let_def

lemma digit_inj:
  assumes "a < 10" "b < 10" "digit a = digit b"
  shows "a = b"
proof -
  have "distinct ''0123456789''" by simp
  moreover have "a < length ''0123456789''" "b < length ''0123456789''"
    using assms by simp_all
  ultimately show ?thesis
    using assms(3) unfolding digit_def by (simp only: nth_eq_iff_index_eq)
qed

lemma digit_in: "d < 10 \<Longrightarrow> digit d \<in> set ''0123456789''"
  unfolding digit_def by (rule nth_mem) simp

lemma show_nat_set: "set (show_nat n) \<subseteq> set ''0123456789''"
proof (induction n rule: show_nat.induct)
  case (1 n)
  show ?case
  proof (cases "n < 10")
    case True
    then show ?thesis using digit_in [of n] by (simp add: show_nat.simps [of n])
  next
    case False
    have "n mod 10 < 10" by simp
    from digit_in [OF this] 1 [OF False] False show ?thesis
      by (simp add: show_nat.simps [of n])
  qed
qed

lemma show_nat_nonempty: "show_nat n \<noteq> []"
  by (simp add: show_nat.simps [of n])

lemma digits_set: "set (digits k n) \<subseteq> set ''0123456789''"
proof (induction k arbitrary: n)
  case 0
  show ?case by simp
next
  case (Suc k)
  have "n mod 10 < 10" by simp
  from digit_in [OF this] Suc [of "n div 10"] show ?case by simp
qed

lemma length_digits: "length (digits k n) = k"
  by (induction k arbitrary: n) simp_all

lemma show_nat_inj: "show_nat a = show_nat b \<Longrightarrow> a = b"
proof (induction a arbitrary: b rule: show_nat.induct)
  case (1 a)
  show ?case
  proof (cases "a < 10")
    case a: True
    show ?thesis
    proof (cases "b < 10")
      case True
      with a 1 (2) show ?thesis
        by (simp add: show_nat.simps [of a] show_nat.simps [of b] digit_inj)
    next
      case False
      with a 1 (2) show_nat_nonempty [of "b div 10"] show ?thesis
        by (simp add: show_nat.simps [of a] show_nat.simps [of b])
    qed
  next
    case a: False
    show ?thesis
    proof (cases "b < 10")
      case True
      with a 1 (2) show_nat_nonempty [of "a div 10"] show ?thesis
        by (simp add: show_nat.simps [of a] show_nat.simps [of b])
    next
      case False
      with a 1 (2) have e: "show_nat (a div 10) = show_nat (b div 10)"
        and d: "digit (a mod 10) = digit (b mod 10)"
        by (simp_all add: show_nat.simps [of a] show_nat.simps [of b])
      from 1 (1) [OF a e] have "a div 10 = b div 10" .
      moreover from d have "a mod 10 = b mod 10" by (intro digit_inj) simp_all
      ultimately show ?thesis by (metis div_mult_mod_eq)
    qed
  qed
qed

lemma digits_inj: "digits k a = digits k b \<Longrightarrow> a mod 10 ^ k = b mod 10 ^ k"
proof (induction k arbitrary: a b)
  case 0
  show ?case by simp
next
  case (Suc k)
  from Suc.prems have e: "digits k (a div 10) = digits k (b div 10)"
    and d: "digit (a mod 10) = digit (b mod 10)" by simp_all
  from Suc.IH [OF e] have "a div 10 mod 10 ^ k = b div 10 mod 10 ^ k" .
  moreover from d have "a mod 10 = b mod 10" by (intro digit_inj) simp_all
  ultimately show ?case by (simp add: mod_mult2_eq)
qed

lemma round_half_even_close:
  assumes "0 < d"
  shows "2 * \<bar>int (round_half_even n d) * int d - int n\<bar> \<le> int d"
proof -
  define q r where "q = n div d" and "r = n mod d"
  have n: "int n = int q * int d + int r"
    unfolding q_def r_def by (metis div_mult_mod_eq of_nat_add of_nat_mult)
  have r: "r < d" unfolding r_def using assms by simp
  show ?thesis
  proof (cases "d < 2 * r \<or> (2 * r = d \<and> odd q)")
    case True
    then have "round_half_even n d = q + 1"
      by (simp add: round_half_even_def Let_def q_def r_def)
    then have "int (round_half_even n d) * int d - int n = int d - int r"
      using n by (simp add: algebra_simps)
    with True r show ?thesis by auto
  next
    case False
    then have "round_half_even n d = q"
      by (simp add: round_half_even_def Let_def q_def r_def)
    then have "int (round_half_even n d) * int d - int n = - int r"
      using n by simp
    with False show ?thesis by auto
  qed
qed

lemma pow2_mod5: "(2::int) ^ k mod 5 \<noteq> 0"
proof (induction k)
  case 0
  show ?case by simp
next
  case (Suc k)
  have "x mod 5 \<noteq> 0 \<Longrightarrow> (2 * x) mod 5 \<noteq> 0" for x :: int by presburger
  from this [OF Suc] show ?case by simp
qed

lemma five_not_dvd_pow2: "\<not> (5::int) dvd 2 ^ k"
  using pow2_mod5 [of k] by (simp add: dvd_eq_mod_eq_0)

lemma two_close:
  fixes u v w d :: int
  assumes "2 * \<bar>u - v\<bar> \<le> d" "2 * \<bar>u - w\<bar> \<le> d"
  shows "\<bar>v - w\<bar> \<le> d"
proof -
  have "\<bar>v - w\<bar> \<le> \<bar>u - v\<bar> + \<bar>u - w\<bar>" by (simp add: abs_if)
  with assms show ?thesis by simp
qed

lemma scaled6_eq_close:
  assumes "scaled6 a = scaled6 b"
  shows "\<bar>int (f_units a) - int (f_units b)\<bar> * 10 ^ 6 < 2 ^ 149"
proof -
  define D :: nat where "D = 2 ^ 149"
  define q where "q = int (scaled6 a)"
  define x y where "x = int (f_units a)" and "y = int (f_units b)"
  have D: "0 < D" by (simp add: D_def)
  have qb: "q = int (scaled6 b)" by (simp add: q_def assms)
  have "2 * \<bar>int (round_half_even (f_units a * 10 ^ 6) D) * int D - int (f_units a * 10 ^ 6)\<bar> \<le> int D"
    using D by (rule round_half_even_close)
  then have A: "2 * \<bar>q * int D - x * 10 ^ 6\<bar> \<le> int D"
    by (simp add: q_def x_def scaled6_def D_def)
  have "2 * \<bar>int (round_half_even (f_units b * 10 ^ 6) D) * int D - int (f_units b * 10 ^ 6)\<bar> \<le> int D"
    using D by (rule round_half_even_close)
  then have B: "2 * \<bar>q * int D - y * 10 ^ 6\<bar> \<le> int D"
    by (simp add: qb y_def scaled6_def D_def)
  from two_close [OF A B] have "\<bar>x * 10 ^ 6 - y * 10 ^ 6\<bar> \<le> int D" .
  moreover have "x * 10 ^ 6 - y * 10 ^ 6 = (x - y) * 10 ^ 6"
    by (simp only: left_diff_distrib)
  moreover have "\<bar>(x - y) * 10 ^ 6\<bar> = \<bar>x - y\<bar> * 10 ^ 6"
    by (simp only: abs_mult) simp
  ultimately have le: "\<bar>x - y\<bar> * 10 ^ 6 \<le> int D"
    by (simp only:)
  have "\<bar>x - y\<bar> * 10 ^ 6 \<noteq> int D"
  proof
    assume "\<bar>x - y\<bar> * 10 ^ 6 = int D"
    then have "\<bar>x - y\<bar> * (2 * 10 ^ 5) * 5 = (2::int) ^ 149" by (simp add: D_def)
    then have "(5::int) dvd 2 ^ 149" by (metis dvd_triv_right)
    then show False by (simp only: five_not_dvd_pow2)
  qed
  with le have "\<bar>x - y\<bar> * 10 ^ 6 < int D" by simp
  then show ?thesis by (simp add: x_def y_def D_def)
qed

lemma float_val_diff:
  assumes "f_sign a = f_sign b"
  shows "\<bar>float_val a - float_val b\<bar> = of_int \<bar>int (f_units a) - int (f_units b)\<bar> / 2 ^ 149"
proof -
  have "\<bar>float_val a - float_val b\<bar> =
        \<bar>(of_int (int (f_units a)) - of_int (int (f_units b))) / (2 ^ 149 :: rat)\<bar>"
    using assms by (auto simp: float_val_def diff_divide_distrib abs_minus_commute)
  also have "\<dots> = of_int \<bar>int (f_units a) - int (f_units b)\<bar> / 2 ^ 149"
    by (simp only: abs_divide of_int_abs of_int_diff) simp
  finally show ?thesis .
qed

lemma scaled6_eq_val_close:
  assumes "f_sign a = f_sign b" "scaled6 a = scaled6 b"
  shows "\<bar>float_val a - float_val b\<bar> < 1 / 10 ^ 6"
proof -
  let ?k = "\<bar>int (f_units a) - int (f_units b)\<bar>"
  from scaled6_eq_close [OF assms(2)] have "?k * 10 ^ 6 < 2 ^ 149" .
  then have "(of_int (?k * 10 ^ 6) :: rat) < of_int (2 ^ 149)"
    by (simp only: of_int_less_iff)
  then have "(of_int ?k :: rat) * 10 ^ 6 < 2 ^ 149" by simp
  then have "(of_int ?k :: rat) / 2 ^ 149 < 1 / 10 ^ 6"
    by (simp add: field_simps)
  then show ?thesis by (simp only: float_val_diff [OF assms(1)])
qed

lemma show_millionths_set:
  "set (show_millionths q) \<subseteq> insert CHR ''.'' (set ''0123456789'')"
proof -
  have "set (show_millionths q) =
        set (show_nat (q div 10 ^ 6)) \<union> insert CHR ''.'' (set (digits 6 (q mod 10 ^ 6)))"
    by (simp add: show_millionths_def)
  with show_nat_set [of "q div 10 ^ 6"] digits_set [of 6 "q mod 10 ^ 6"]
  show ?thesis by blast
qed

lemma show_millionths_no_dash: "CHR ''-'' \<notin> set (show_millionths q)"
proof -
  have "CHR ''-'' \<notin> insert CHR ''.'' (set ''0123456789'')" by simp
  with show_millionths_set [of q] show ?thesis by blast
qed

lemma not_digit_z: "CHR ''z'' \<notin> set ''0123456789''"
  by simp

lemma not_digit_dot: "CHR ''.'' \<notin> set ''0123456789''"
  by simp

lemma show_millionths_last: "last (show_millionths q) \<in> set ''0123456789''"
proof -
  have ne: "digits 6 (q mod 10 ^ 6) \<noteq> []"
    using length_digits [of 6 "q mod 10 ^ 6"] by auto
  then have "last (show_millionths q) = last (digits 6 (q mod 10 ^ 6))"
    by (simp add: show_millionths_def)
  also have "\<dots> \<in> set (digits 6 (q mod 10 ^ 6))" using ne by (rule last_in_set)
  finally show ?thesis using digits_set [of 6 "q mod 10 ^ 6"] by blast
qed

lemma show_millionths_inj:
  assumes "show_millionths a = show_millionths b"
  shows "a = b"
proof -
  let ?ia = "show_nat (a div 10 ^ 6) @ ''.''" and ?ib = "show_nat (b div 10 ^ 6) @ ''.''"
  let ?da = "digits 6 (a mod 10 ^ 6)" and ?db = "digits 6 (b mod 10 ^ 6)"
  have len: "length ?ia = length ?ib \<or> length ?da = length ?db"
    by (simp add: length_digits)
  have e: "?ia @ ?da = ?ib @ ?db"
    using assms by (simp add: show_millionths_def)
  from e [unfolded append_eq_append_conv [OF len]]
  have i: "?ia = ?ib" and d: "?da = ?db" by blast+
  from i have "show_nat (a div 10 ^ 6) = show_nat (b div 10 ^ 6)" by simp
  then have "a div 10 ^ 6 = b div 10 ^ 6" by (rule show_nat_inj)
  moreover from digits_inj [OF d] have "a mod 10 ^ 6 = b mod 10 ^ 6" by simp
  ultimately show ?thesis by (metis div_mult_mod_eq)
qed

lemma last_dash_split:
  assumes "CHR ''-'' \<notin> set b1" "CHR ''-'' \<notin> set b2"
    and "g1 @ CHR ''-'' # b1 = g2 @ CHR ''-'' # b2"
  shows "g1 = g2 \<and> b1 = b2"
proof -
  from assms(3) consider us where "g1 = g2 @ us" "us @ CHR ''-'' # b1 = CHR ''-'' # b2"
    | us where "g1 @ us = g2" "CHR ''-'' # b1 = us @ CHR ''-'' # b2"
    by (auto simp: append_eq_append_conv2)
  then show ?thesis
  proof cases
    case 1
    show ?thesis
    proof (cases us)
      case Nil
      with 1 show ?thesis by simp
    next
      case (Cons u us')
      with 1 (2) have "b2 = us' @ CHR ''-'' # b1" by simp
      with assms(2) show ?thesis by simp
    qed
  next
    case 2
    show ?thesis
    proof (cases us)
      case Nil
      with 2 show ?thesis by simp
    next
      case (Cons u us')
      with 2 (2) have "b1 = us' @ CHR ''-'' # b2" by simp
      with assms(1) show ?thesis by simp
    qed
  qed
qed

lemma fixed6_parts: "fixed6 w = f_sign_text w @ f_mag_text w"
  by (simp add: fixed6_def f_sign_text_def f_mag_text_def)

lemma not_digit_letters:
  "CHR ''i'' \<notin> insert CHR ''.'' (set ''0123456789'')"
  "CHR ''n'' \<notin> insert CHR ''.'' (set ''0123456789'')"
  by simp_all

lemma show_millionths_not_inf: "show_millionths q \<noteq> ''inf''"
proof
  assume "show_millionths q = ''inf''"
  then have "CHR ''i'' \<in> set (show_millionths q)" by simp
  with show_millionths_set [of q] not_digit_letters(1) show False by blast
qed

lemma show_millionths_not_nan: "show_millionths q \<noteq> ''nan''"
proof
  assume "show_millionths q = ''nan''"
  then have "CHR ''n'' \<in> set (show_millionths q)" by simp
  with show_millionths_set [of q] not_digit_letters(2) show False by blast
qed

lemma f_mag_text_no_dash: "CHR ''-'' \<notin> set (f_mag_text w)"
  by (simp add: f_mag_text_def show_millionths_no_dash)

lemma f_mag_text_last: "f_mag_text w \<noteq> [] \<and> last (f_mag_text w) \<noteq> CHR ''z''"
proof (cases "f_finite w")
  case True
  have "show_millionths (scaled6 w) \<noteq> []" by (simp add: show_millionths_def)
  moreover have "last (show_millionths (scaled6 w)) \<noteq> CHR ''z''"
    using show_millionths_last [of "scaled6 w"] not_digit_z by metis
  ultimately show ?thesis using True by (simp add: f_mag_text_def)
next
  case False
  then show ?thesis by (simp add: f_mag_text_def)
qed

lemma formatKey_parts:
  "formatKey f n z =
     (f @ f_sign_text n) @ CHR ''-'' # f_mag_text n @ (if z then ''-z'' else '''')"
  by (simp add: formatKey_def fixed6_parts f_sign_text_def)

lemma formatKey_last_char:
  "last (formatKey f n z) = (if z then CHR ''z'' else last (f_mag_text n))"
  using f_mag_text_last [of n] by (simp add: formatKey_parts)

lemma formatKey_eq_iff:
  "formatKey f1 n1 z1 = formatKey f2 n2 z2 \<longleftrightarrow>
     z1 = z2 \<and> f_mag_text n1 = f_mag_text n2 \<and> f1 @ f_sign_text n1 = f2 @ f_sign_text n2"
proof
  assume eq: "formatKey f1 n1 z1 = formatKey f2 n2 z2"
  have z: "z1 = z2"
    using arg_cong [OF eq, of last] f_mag_text_last [of n1] f_mag_text_last [of n2]
    by (simp add: formatKey_last_char split: if_splits)
  have "(f1 @ f_sign_text n1) @ CHR ''-'' # f_mag_text n1 =
        (f2 @ f_sign_text n2) @ CHR ''-'' # f_mag_text n2"
    using eq z by (simp add: formatKey_parts)
  from last_dash_split [OF f_mag_text_no_dash f_mag_text_no_dash this] z
  show "z1 = z2 \<and> f_mag_text n1 = f_mag_text n2 \<and>
      f1 @ f_sign_text n1 = f2 @ f_sign_text n2" by simp
next
  assume "z1 = z2 \<and> f_mag_text n1 = f_mag_text n2 \<and>
      f1 @ f_sign_text n1 = f2 @ f_sign_text n2"
  then show "formatKey f1 n1 z1 = formatKey f2 n2 z2"
    by (simp add: formatKey_parts)
qed

lemma apart6_mag_text:
  assumes "apart6 n1 n2" "f_sign n1 = f_sign n2"
  shows "f_mag_text n1 \<noteq> f_mag_text n2"
proof
  assume eq: "f_mag_text n1 = f_mag_text n2"
  from assms(1) have nn: "\<not> f_nan n1" "\<not> f_nan n2" by (simp_all add: apart6_def)
  show False
  proof (cases "f_finite n1 \<and> f_finite n2")
    case True
    with eq have "show_millionths (scaled6 n1) = show_millionths (scaled6 n2)"
      by (simp add: f_mag_text_def)
    then have "scaled6 n1 = scaled6 n2" by (rule show_millionths_inj)
    from scaled6_eq_val_close [OF assms(2) this]
    have "\<bar>float_val n1 - float_val n2\<bar> < 1 / 10 ^ 6" .
    moreover from assms(1) True have "1 / 10 ^ 6 \<le> \<bar>float_val n1 - float_val n2\<bar>"
      by (simp add: apart6_def)
    ultimately show False by simp
  next
    case False
    with assms have one: "f_finite n1 \<or> f_finite n2" by (auto simp: apart6_def)
    show False
    proof (cases "f_finite n1")
      case True
      with False have "\<not> f_finite n2" by simp
      with True eq nn(2) show False
        by (simp add: f_mag_text_def f_nan_def show_millionths_not_inf)
    next
      case n1: False
      with one have "f_finite n2" by simp
      with n1 eq nn(1) show False
        by (simp add: f_mag_text_def f_nan_def show_millionths_not_inf [symmetric])
    qed
  qed
qed

lemma sign_text_eq:
  "f1 @ f_sign_text n1 = f2 @ f_sign_text n2 \<longleftrightarrow>
     (f_sign n1 = f_sign n2 \<and> f1 = f2) \<or>
     (f_sign n1 \<and> \<not> f_sign n2 \<and> f2 = f1 @ ''-'') \<or>
     (\<not> f_sign n1 \<and> f_sign n2 \<and> f1 = f2 @ ''-'')"
  by (auto simp: f_sign_text_def)

lemma unat_f_encode:
  assumes "e < 256" "m < 2 ^ 23"
  shows "unat (f_encode s e m) = (if s then 2 ^ 31 else 0) + e * 2 ^ 23 + m"
proof -
  have "e * 2 ^ 23 + m < 2 ^ 31" using assms by simp
  then have "(if s then 2 ^ 31 else 0) + e * 2 ^ 23 + m < (2 ^ 32 :: nat)" by simp
  moreover have "unat (f_encode s e m) =
      ((if s then 2 ^ 31 else 0) + e * 2 ^ 23 + m) mod 2 ^ LENGTH(32)"
    by (simp only: f_encode_def unat_of_nat)
  ultimately show ?thesis by simp
qed

lemma f_encode_fields:
  assumes "e < 256" "m < 2 ^ 23"
  shows "f_exp (f_encode s e m) = e" "f_frac (f_encode s e m) = m"
    "f_sign (f_encode s e m) = s"
proof -
  have low: "e * 2 ^ 23 + m < 2 ^ 31" using assms by simp
  have d: "(e * 2 ^ 23 + m) div 2 ^ 23 = e" using assms(2) by simp
  have d': "(2 ^ 31 + e * 2 ^ 23 + m) div 2 ^ 23 = 256 + e"
  proof -
    have "(2 ^ 31 + e * 2 ^ 23 + m) = (256 + e) * 2 ^ 23 + m" by simp
    then show ?thesis using assms(2) by simp
  qed
  show "f_exp (f_encode s e m) = e"
    using assms(1) d d' by (simp add: f_exp_def unat_f_encode [OF assms])
  show "f_frac (f_encode s e m) = m"
  proof -
    have "(2 ^ 31 + e * 2 ^ 23 + m) mod 2 ^ 23 = ((256 + e) * 2 ^ 23 + m) mod 2 ^ 23"
      by simp
    also have "\<dots> = m" using assms(2) by (simp only: mod_mult_self3) simp
    finally show ?thesis
      using assms(2) by (simp add: f_frac_def unat_f_encode [OF assms])
  qed
  show "f_sign (f_encode s e m) = s"
    using low by (simp add: f_sign_def unat_f_encode [OF assms])
qed

lemma bitlen_0: "bitlen 0 = 0"
  by (simp add: bitlen.simps [of 0])

lemma bitlen_pos: "0 < n \<Longrightarrow> bitlen n = Suc (bitlen (n div 2))"
  by (simp add: bitlen.simps [of n])

lemma bitlen_bounds: "0 < a \<Longrightarrow> 2 ^ (bitlen a - 1) \<le> a \<and> a < 2 ^ bitlen a"
proof (induction a rule: bitlen.induct)
  case (1 n)
  have b: "bitlen n = Suc (bitlen (n div 2))" using 1 (2) by (rule bitlen_pos)
  show ?case
  proof (cases "n div 2 = 0")
    case True
    with 1 (2) have "n = 1" by auto
    with b show ?thesis by (simp add: bitlen_0)
  next
    case False
    with 1 have IH: "2 ^ (bitlen (n div 2) - 1) \<le> n div 2" "n div 2 < 2 ^ bitlen (n div 2)"
      by simp_all
    have pos: "0 < bitlen (n div 2)" using False by (simp add: bitlen_pos)
    have "2 ^ (bitlen n - 1) = 2 * 2 ^ (bitlen (n div 2) - 1)"
      using pos b by (cases "bitlen (n div 2)") simp_all
    also have "\<dots> \<le> 2 * (n div 2)" using IH(1) by simp
    also have "\<dots> \<le> n" by simp
    finally have lo: "2 ^ (bitlen n - 1) \<le> n" .
    have "n < 2 * 2 ^ bitlen (n div 2)" using IH(2) by linarith
    then have "n < 2 ^ bitlen n" by (simp only: b power_Suc)
    with lo show ?thesis by simp
  qed
qed

lemma bitlen_le:
  assumes "a < 2 ^ n"
  shows "bitlen a \<le> n"
proof (cases "a = 0")
  case True
  then show ?thesis by (simp add: bitlen_0)
next
  case False
  then have "2 ^ (bitlen a - 1) \<le> a" using bitlen_bounds [of a] by simp
  from this assms have "(2::nat) ^ (bitlen a - 1) < 2 ^ n" by (rule le_less_trans)
  then have "bitlen a - 1 < n" by (simp only: power_strict_increasing_iff) 
  then show ?thesis by simp
qed

lemma round_half_even_cases:
  "round_half_even n d = n div d \<or> round_half_even n d = n div d + 1"
  by (simp add: round_half_even_def Let_def)

lemma f_units_encode:
  assumes "0 < e" "e < 255" "2 ^ 23 \<le> sg" "sg < 2 ^ 24"
  shows "f_units (f_encode s e (sg - 2 ^ 23)) = sg * 2 ^ (e - 1)"
    and "f_finite (f_encode s e (sg - 2 ^ 23))"
    and "f_sign (f_encode s e (sg - 2 ^ 23)) = s"
proof -
  define m where "m = sg - 2 ^ 23"
  have e: "e < 256" using assms(2) by simp
  have m: "m < 2 ^ 23" using assms(3,4) by (simp add: m_def)
  have sg: "2 ^ 23 + m = sg" using assms(3) by (simp add: m_def)
  have "f_units (f_encode s e m) = (2 ^ 23 + m) * 2 ^ (e - 1)"
    using assms(1) by (simp add: f_units_def f_encode_fields [OF e m])
  then show "f_units (f_encode s e (sg - 2 ^ 23)) = sg * 2 ^ (e - 1)"
    by (simp only: sg flip: m_def)
  have "f_finite (f_encode s e m)"
    using assms(2) by (simp add: f_finite_def f_encode_fields [OF e m])
  then show "f_finite (f_encode s e (sg - 2 ^ 23))" by (simp only: m_def)
  have "f_sign (f_encode s e m) = s"
    by (simp add: f_encode_fields [OF e m])
  then show "f_sign (f_encode s e (sg - 2 ^ 23)) = s" by (simp only: m_def)
qed

lemma float_of_int_units:
  assumes "\<bar>i\<bar> \<le> 2 ^ 31"
  shows "\<exists>M. f_units (float_of_int i) = M * 2 ^ 149 \<and> f_finite (float_of_int i) \<and>
    f_sign (float_of_int i) = (i < 0) \<and> (\<bar>i\<bar> < 2 ^ 24 \<longrightarrow> M = nat \<bar>i\<bar>)"
proof (cases "i = 0")
  case True
  have "f_units 0 = 0 * 2 ^ 149" "f_finite 0" "\<not> f_sign 0"
    by (simp_all add: f_units_def f_exp_def f_frac_def f_finite_def f_sign_def)
  with True show ?thesis by (simp add: float_of_int_def)
next
  case False
  define a where "a = nat \<bar>i\<bar>"
  define k where "k = bitlen a"
  have a0: "0 < a" using False by (simp add: a_def)
  have "a < 2 ^ 32" using assms by (simp add: a_def)
  then have k32: "k \<le> 32" unfolding k_def by (rule bitlen_le)
  from bitlen_bounds [OF a0] have lo: "2 ^ (k - 1) \<le> a" and hi: "a < 2 ^ k"
    by (simp_all add: k_def)
  have k0: "0 < k" using a0 by (simp add: k_def bitlen_pos)
  show ?thesis
  proof (cases "k \<le> 24")
    case True
    define sg where "sg = a * 2 ^ (24 - k)"
    have "2 ^ (k - 1) * 2 ^ (24 - k) \<le> sg" unfolding sg_def using lo by simp
    moreover have "(2::nat) ^ (k - 1) * 2 ^ (24 - k) = 2 ^ 23"
      using k0 True by (simp flip: power_add)
    ultimately have sg_lo: "2 ^ 23 \<le> sg" by simp
    have "sg < 2 ^ k * 2 ^ (24 - k)" unfolding sg_def using hi by simp
    moreover have "(2::nat) ^ k * 2 ^ (24 - k) = 2 ^ 24"
      using True by (simp flip: power_add)
    ultimately have sg_hi: "sg < 2 ^ 24" by simp
    have f: "float_of_int i = f_encode (i < 0) (k + 126) (sg - 2 ^ 23)"
      using False True by (simp add: float_of_int_def Let_def a_def k_def sg_def)
    have e: "0 < k + 126" "k + 126 < 255" using True by simp_all
    have "f_units (float_of_int i) = sg * 2 ^ (k + 126 - 1)"
      unfolding f by (rule f_units_encode [OF e sg_lo sg_hi])
    also have "\<dots> = a * (2 ^ (24 - k) * 2 ^ (k + 125))" by (simp add: sg_def)
    also have "(2::nat) ^ (24 - k) * 2 ^ (k + 125) = 2 ^ 149"
      using True by (simp flip: power_add)
    finally have "f_units (float_of_int i) = a * 2 ^ 149" .
    moreover have "f_finite (float_of_int i)"
      unfolding f by (rule f_units_encode [OF e sg_lo sg_hi])
    moreover have "f_sign (float_of_int i) = (i < 0)"
      unfolding f by (rule f_units_encode [OF e sg_lo sg_hi])
    ultimately show ?thesis by (auto simp: a_def)
  next
    case False
    define sh where "sh = k - 24"
    define m where "m = round_half_even a (2 ^ sh)"
    have sh: "0 < sh" "sh \<le> 8" "k = sh + 24" using False k32 by (simp_all add: sh_def)
    have big: "\<not> \<bar>i\<bar> < 2 ^ 24"
    proof
      assume "\<bar>i\<bar> < 2 ^ 24"
      then have "a < 2 ^ 24" by (simp add: a_def)
      then have "k \<le> 24" unfolding k_def by (rule bitlen_le)
      with False show False by simp
    qed
    have "2 ^ 23 * 2 ^ sh \<le> a" using lo sh by (simp add: power_add mult.commute)
    then have "(2 ^ 23 * 2 ^ sh) div 2 ^ sh \<le> a div 2 ^ sh" by (rule div_le_mono)
    then have q_lo: "2 ^ 23 \<le> a div 2 ^ sh" by simp
    have "a < 2 ^ 24 * 2 ^ sh" using hi sh by (simp add: power_add mult.commute)
    then have q_hi: "a div 2 ^ sh < 2 ^ 24" by (rule less_mult_imp_div_less)
    from round_half_even_cases [of a "2 ^ sh"] q_lo q_hi
    have m_lo: "2 ^ 23 \<le> m" and m_hi: "m \<le> 2 ^ 24" by (auto simp: m_def)
    show ?thesis
    proof (cases "m = 2 ^ 24")
      case True
      have f: "float_of_int i = f_encode (i < 0) (sh + 151) (2 ^ 23 - 2 ^ 23)"
        using \<open>i \<noteq> 0\<close> False True
        by (simp add: float_of_int_def Let_def a_def k_def sh_def m_def)
      have e: "0 < sh + 151" "sh + 151 < 255" using sh by simp_all
      have s: "(2::nat) ^ 23 \<le> 2 ^ 23" "(2::nat) ^ 23 < 2 ^ 24" by simp_all
      have "f_units (float_of_int i) = 2 ^ 23 * 2 ^ (sh + 151 - 1)"
        unfolding f by (rule f_units_encode [OF e s])
      also have "\<dots> = 2 ^ (sh + 24) * 2 ^ 149"
      proof -
        have "23 + (sh + 151 - 1) = sh + 24 + 149" by simp
        then show ?thesis by (simp only: power_add [symmetric])
      qed
      finally have "f_units (float_of_int i) = 2 ^ (sh + 24) * 2 ^ 149" .
      moreover have "f_finite (float_of_int i)"
        unfolding f by (rule f_units_encode [OF e s])
      moreover have "f_sign (float_of_int i) = (i < 0)"
        unfolding f by (rule f_units_encode [OF e s])
      ultimately show ?thesis using big by blast
    next
      case ne: False
      with m_hi have m_hi': "m < 2 ^ 24" by simp
      have f: "float_of_int i = f_encode (i < 0) (sh + 150) (m - 2 ^ 23)"
        using \<open>i \<noteq> 0\<close> False ne
        by (simp add: float_of_int_def Let_def a_def k_def sh_def m_def)
      have e: "0 < sh + 150" "sh + 150 < 255" using sh by simp_all
      have "f_units (float_of_int i) = m * 2 ^ (sh + 150 - 1)"
        unfolding f by (rule f_units_encode [OF e m_lo m_hi'])
      also have "\<dots> = (m * 2 ^ sh) * 2 ^ 149" by (simp add: power_add)
      finally have "f_units (float_of_int i) = (m * 2 ^ sh) * 2 ^ 149" .
      moreover have "f_finite (float_of_int i)"
        unfolding f by (rule f_units_encode [OF e m_lo m_hi'])
      moreover have "f_sign (float_of_int i) = (i < 0)"
        unfolding f by (rule f_units_encode [OF e m_lo m_hi'])
      ultimately show ?thesis using big by blast
    qed
  qed
qed

lemma scaled6_whole:
  assumes "f_units w = M * 2 ^ 149"
  shows "scaled6 w = M * 10 ^ 6"
proof -
  have "f_units w * 10 ^ 6 = (M * 10 ^ 6) * 2 ^ 149"
    by (simp only: assms mult.assoc mult.commute [of "2 ^ 149"])
  then have "scaled6 w = round_half_even ((M * 10 ^ 6) * 2 ^ 149) (2 ^ 149)"
    by (simp only: scaled6_def)
  also have "\<dots> = M * 10 ^ 6"
    by (simp add: round_half_even_def Let_def)
  finally show ?thesis .
qed

lemma show_millionths_whole: "show_millionths (M * 10 ^ 6) = show_nat M @ ''.000000''"
proof -
  have "digits 6 0 = ''000000''" by (simp add: digits_numeral digit_def)
  then show ?thesis by (simp add: show_millionths_def)
qed

lemma fixed6_float_of_int:
  assumes "\<bar>i\<bar> \<le> 2 ^ 31"
  shows "\<exists>M. fixed6 (float_of_int i) =
      (if i < 0 then ''-'' else '''') @ show_nat M @ ''.000000'' \<and>
      (\<bar>i\<bar> < 2 ^ 24 \<longrightarrow> M = nat \<bar>i\<bar>)"
proof -
  from float_of_int_units [OF assms] obtain M
    where u: "f_units (float_of_int i) = M * 2 ^ 149"
      and fin: "f_finite (float_of_int i)"
      and sgn: "f_sign (float_of_int i) = (i < 0)"
      and M: "\<bar>i\<bar> < 2 ^ 24 \<longrightarrow> M = nat \<bar>i\<bar>" by blast
  have "fixed6 (float_of_int i) = (if i < 0 then ''-'' else '''') @ show_nat M @ ''.000000''"
    by (simp only: fixed6_def fin sgn if_True scaled6_whole [OF u] show_millionths_whole)
  with M show ?thesis by blast
qed

lemma sint_abs_32: "\<bar>sint (n :: 32 word)\<bar> \<le> 2 ^ 31"
  using sint_ge [of n] sint_lt [of n] by simp

section \<open>Properties of the frame list operations\<close>

lemma same_key_Ptr: "same_key h (Ptr b) f = has_key h (key (h b)) f"
  by (simp add: same_key_def has_key_def split: shared_ptr.splits)

lemma find_if_has_key:
  "Null \<notin> set fl \<Longrightarrow>
   find_if (has_key h k) fl = Inr (length (takeWhile (\<lambda>q. key_of h q \<noteq> Some k) fl))"
proof (induction fl)
  case Nil
  show ?case by simp
next
  case (Cons f fs)
  then obtain a where "f = Ptr a" by (cases f) auto
  with Cons show ?case by (simp add: has_key_def)
qed

lemma find_if_Null_frame:
  "fl \<noteq> [] \<Longrightarrow> find_if (same_key h Null) fl = Inl NullDeref"
  by (cases fl) (auto simp: same_key_def split: shared_ptr.splits)

lemma erase_takeWhile:
  assumes "distinct (map f xs)" "length (takeWhile (\<lambda>q. f q \<noteq> k) xs) \<noteq> length xs"
  shows "erase (length (takeWhile (\<lambda>q. f q \<noteq> k) xs)) xs = filter (\<lambda>q. f q \<noteq> k) xs"
  using assms
proof (induction xs)
  case Nil
  then show ?case by simp
next
  case (Cons x xs)
  show ?case
  proof (cases "f x = k")
    case True
    with Cons.prems have "k \<notin> f ` set xs" by simp
    then have "\<forall>q\<in>set xs. f q \<noteq> k" by blast
    then have "filter (\<lambda>q. f q \<noteq> k) xs = xs" by simp
    with True show ?thesis by (simp add: erase_def)
  next
    case False
    with Cons show ?thesis by (simp add: erase_def)
  qed
qed

lemma notin_image_iff: "k \<notin> f ` A \<longleftrightarrow> (\<forall>q\<in>A. f q \<noteq> k)"
  by blast

lemma in_image_iff: "k \<in> f ` A \<longleftrightarrow> (\<exists>q\<in>A. f q = k)"
  by blast

lemma takeWhile_all_iff:
  "length (takeWhile P xs) = length xs \<longleftrightarrow> (\<forall>x\<in>set xs. P x)"
  by (induction xs) auto

lemma age_Cons_sorted:
  assumes "sorted_wrt (\<lambda>a b. age a hist < age b hist) ks" "k \<notin> set ks"
  shows "sorted_wrt (\<lambda>a b. age a (k # hist) < age b (k # hist)) (k # ks)"
proof -
  have "sorted_wrt (\<lambda>a b. age a (k # hist) < age b (k # hist)) ks"
    using assms by (auto simp: sorted_wrt_iff_nth_less)
  moreover have "\<forall>x\<in>set ks. age k (k # hist) < age x (k # hist)"
    using assms(2) by auto
  ultimately show ?thesis by simp
qed

lemma sorted_age_distinct:
  "sorted_wrt (\<lambda>a b. age a hist < age b (hist :: 'a list)) ks \<Longrightarrow> distinct ks"
  by (induction ks) auto

lemma addFrame_empty: "addFrame h p [] = Inr [p]"
  by (simp add: addFrame_def maxSize_def)

lemma addFrame_eq:
  assumes "Null \<notin> set fl"
  shows "addFrame h (Ptr a) fl =
     Inr (Ptr a #
       (let i = length (takeWhile (\<lambda>q. key_of h q \<noteq> Some (key (h a))) fl) in
        if i \<noteq> length fl then erase i fl
        else if length fl \<ge> maxSize then butlast fl else fl))"
proof -
  have "same_key h (Ptr a) = has_key h (key (h a))"
    by (rule ext) (rule same_key_Ptr)
  then show ?thesis
    using find_if_has_key [OF assms, of h "key (h a)"]
    by (simp add: addFrame_def Let_def)
qed

lemma addFrame_cases:
  assumes "addFrame h p fl = Inr fl'" "Null \<in> set fl \<longrightarrow> fl = [Null]"
  shows "fl = [] \<or> (p \<noteq> Null \<and> Null \<notin> set fl)"
proof (cases fl)
  case Nil
  then show ?thesis by simp
next
  case (Cons f fs)
  have "p \<noteq> Null"
    using assms(1) find_if_Null_frame [of fl h] Cons by (auto simp: addFrame_def)
  moreover have "Null \<notin> set fl"
  proof
    assume "Null \<in> set fl"
    with assms(2) have "fl = [Null]" by simp
    with assms(1) show False by (simp add: addFrame_def same_key_def)
  qed
  ultimately show ?thesis by simp
qed

lemma addFrame_present:
  assumes "Null \<notin> set fl" "distinct (map (key_of h) fl)"
    "Some (key (h a)) \<in> set (map (key_of h) fl)"
  shows "addFrame h (Ptr a) fl = Inr (Ptr a # filter (\<lambda>q. key_of h q \<noteq> Some (key (h a))) fl)"
proof -
  let ?P = "\<lambda>q. key_of h q \<noteq> Some (key (h a))"
  have ne: "length (takeWhile ?P fl) \<noteq> length fl"
    using assms(3) by (simp add: takeWhile_all_iff in_image_iff)
  show ?thesis
    using erase_takeWhile [OF assms(2) ne] ne
    by (simp add: addFrame_eq [OF assms(1)] Let_def)
qed

lemma addFrame_absent:
  assumes "Null \<notin> set fl" "Some (key (h a)) \<notin> set (map (key_of h) fl)"
  shows "addFrame h (Ptr a) fl =
     Inr (Ptr a # (if length fl \<ge> maxSize then butlast fl else fl))"
proof -
  let ?P = "\<lambda>q. key_of h q \<noteq> Some (key (h a))"
  have "length (takeWhile ?P fl) = length fl"
    using assms(2) by (simp add: takeWhile_all_iff notin_image_iff)
  then show ?thesis
    by (simp add: addFrame_eq [OF assms(1)] Let_def)
qed

lemma length_filter_distinct_key:
  assumes "distinct (map f xs)" "k \<in> set (map f xs)"
  shows "Suc (length (filter (\<lambda>q. f q \<noteq> k) xs)) = length xs"
  using assms
proof (induction xs)
  case Nil
  then show ?case by simp
next
  case (Cons x xs)
  show ?case
  proof (cases "f x = k")
    case True
    with Cons.prems have "k \<notin> f ` set xs" by simp
    then have "\<forall>q\<in>set xs. f q \<noteq> k" by blast
    then have "filter (\<lambda>q. f q \<noteq> k) xs = xs" by simp
    with True show ?thesis by simp
  next
    case False
    with Cons show ?thesis by simp
  qed
qed

lemma cache_inv_add:
  assumes "cache_inv h fl hist" "addFrame h p fl = Inr fl'"
  shows "cache_inv h fl' (key_of h p # hist)"
proof -
  from assms have nn: "Null \<in> set fl \<longrightarrow> fl = [Null]"
    and srt: "sorted_wrt (\<lambda>a b. age a hist < age b hist) (map (key_of h) fl)"
    and len: "length fl \<le> maxSize"
    by (simp_all add: cache_inv_def)
  from addFrame_cases [OF assms(2) nn] show ?thesis
  proof
    assume "fl = []"
    with assms(2) show ?thesis
      by (auto simp: addFrame_empty cache_inv_def maxSize_def)
  next
    assume "p \<noteq> Null \<and> Null \<notin> set fl"
    then obtain a where p: "p = Ptr a" and nf: "Null \<notin> set fl"
      by (cases p) auto
    let ?k = "Some (key (h a))"
    have dist: "distinct (map (key_of h) fl)"
      using srt by (rule sorted_age_distinct)
    obtain rest where fl': "fl' = Ptr a # rest"
      and sub: "map (key_of h) rest = filter (\<lambda>x. x \<noteq> ?k) (map (key_of h) rest)"
      and srt': "sorted_wrt (\<lambda>a b. age a hist < age b hist) (map (key_of h) rest)"
      and len': "length rest < maxSize" and sset: "set rest \<subseteq> set fl"
    proof (cases "?k \<in> set (map (key_of h) fl)")
      case True
      let ?rest = "filter (\<lambda>q. key_of h q \<noteq> ?k) fl"
      have "fl' = Ptr a # ?rest"
        using addFrame_present [OF nf dist True] assms(2) p by simp
      moreover have "sorted_wrt (\<lambda>a b. age a hist < age b hist) (map (key_of h) ?rest)"
        using srt by (simp add: sorted_wrt_map sorted_wrt_filter)
      moreover have "length ?rest < maxSize"
        using length_filter_distinct_key [OF dist True] len by simp
      moreover have "map (key_of h) ?rest = filter (\<lambda>x. x \<noteq> ?k) (map (key_of h) ?rest)"
        by (simp add: filter_map comp_def)
      ultimately show ?thesis using that by auto
    next
      case False
      let ?rest = "if length fl \<ge> maxSize then butlast fl else fl"
      have "fl' = Ptr a # ?rest"
        using addFrame_absent [OF nf False] assms(2) p by simp
      moreover have "sorted_wrt (\<lambda>a b. age a hist < age b hist) (map (key_of h) ?rest)"
        using srt by (auto simp: map_butlast butlast_conv_take simp flip: take_map)
      moreover have "length ?rest < maxSize"
        using len by (auto simp: maxSize_def)
      moreover have "set ?rest \<subseteq> set fl"
        by (auto dest: in_set_butlastD)
      then have "?k \<notin> set (map (key_of h) ?rest)"
        using False by (simp only: set_map) blast
      then have "map (key_of h) ?rest = filter (\<lambda>x. x \<noteq> ?k) (map (key_of h) ?rest)"
        by (simp add: notin_image_iff)
      ultimately show ?thesis using that \<open>set ?rest \<subseteq> set fl\<close> by blast
    qed
    have notin: "?k \<notin> set (map (key_of h) rest)"
    proof
      assume "?k \<in> set (map (key_of h) rest)"
      then have "?k \<in> set (filter (\<lambda>x. x \<noteq> ?k) (map (key_of h) rest))"
        using sub by simp
      then show False by simp
    qed
    have "sorted_wrt (\<lambda>a b. age a (?k # hist) < age b (?k # hist)) (?k # map (key_of h) rest)"
      using srt' notin by (rule age_Cons_sorted)
    moreover have "Null \<notin> set fl'"
      using fl' sset nf by auto
    ultimately show ?thesis
      using fl' len' p by (simp add: cache_inv_def)
  qed
qed

lemma getFrame_snd: "getFrame h k fl = Inr r \<Longrightarrow> snd r = fl"
  by (auto simp: getFrame_def split: sum.splits if_splits)

lemma getFrame_eq:
  assumes "Null \<notin> set fl"
  shows "getFrame h k fl =
     (let i = length (takeWhile (\<lambda>q. key_of h q \<noteq> Some k) fl) in
      if i \<noteq> length fl then Inr (fl ! i, fl) else Inr (Null, fl))"
  using find_if_has_key [OF assms, of h k] by (simp add: getFrame_def Let_def)

lemma step_GetFrame: "step h (GetFrame k) fl = Inr fl' \<Longrightarrow> fl' = fl"
  by (auto simp: step_def dest: getFrame_snd split: sum.splits)

lemma cache_inv_step:
  assumes "cache_inv h fl hist" "step h c fl = Inr fl'"
  shows "cache_inv h fl' (inserted h [c] @ hist)"
proof (cases c)
  case (AddFrame p)
  with assms show ?thesis by (simp add: step_def cache_inv_add)
next
  case (GetFrame k)
  with assms step_GetFrame [of h k fl fl'] show ?thesis by simp
qed

lemma inserted_Cons: "inserted h (c # cs) = inserted h cs @ inserted h [c]"
  by (cases c) simp_all

lemma cache_inv_exec:
  "cache_inv h fl hist \<Longrightarrow> exec h cs fl = Inr fl' \<Longrightarrow> cache_inv h fl' (inserted h cs @ hist)"
proof (induction cs arbitrary: fl hist)
  case Nil
  then show ?case by simp
next
  case (Cons c cs)
  from Cons.prems(2) obtain fl1 where s: "step h c fl = Inr fl1" and e: "exec h cs fl1 = Inr fl'"
    by (auto split: sum.splits)
  from cache_inv_step [OF Cons.prems(1) s] have "cache_inv h fl1 (inserted h [c] @ hist)" .
  from Cons.IH [OF this e] show ?case
    by (simp only: inserted_Cons [of h c cs] append_assoc)
qed

lemma cache_inv_init: "cache_inv h [] []"
  by (simp add: cache_inv_def)

lemma cache_inv_reach:
  assumes "exec h cs [] = Inr fl"
  shows "cache_inv h fl (inserted h cs)"
  using cache_inv_exec [OF cache_inv_init assms] by simp

lemma addFrame_total:
  assumes "Null \<notin> set fl"
  shows "\<exists>fl'. addFrame h (Ptr a) fl = Inr fl' \<and> Null \<notin> set fl'"
proof -
  have "set (erase i fl) \<subseteq> set fl" for i
    by (auto simp: erase_def dest: in_set_takeD in_set_dropD)
  moreover have "set (butlast fl) \<subseteq> set fl"
    by (auto dest: in_set_butlastD)
  ultimately show ?thesis
    using assms by (auto simp: addFrame_eq [OF assms] Let_def)
qed

lemma step_total:
  assumes "Null \<notin> set fl" "c \<noteq> AddFrame Null"
  shows "\<exists>fl'. step h c fl = Inr fl' \<and> Null \<notin> set fl'"
proof (cases c)
  case (AddFrame p)
  with assms(2) obtain a where "p = Ptr a" by (cases p) auto
  with AddFrame addFrame_total [OF assms(1), of h a] show ?thesis by (simp add: step_def)
next
  case (GetFrame k)
  with assms(1) show ?thesis by (simp add: step_def getFrame_eq Let_def)
qed

lemma exec_total:
  "Null \<notin> set fl \<Longrightarrow> AddFrame Null \<notin> set cs \<Longrightarrow> \<exists>fl'. exec h cs fl = Inr fl'"
proof (induction cs arbitrary: fl)
  case Nil
  then show ?case by simp
next
  case (Cons c cs)
  from Cons.prems have "c \<noteq> AddFrame Null" by auto
  from step_total [OF Cons.prems(1) this, of h]
  obtain fl1 where s: "step h c fl = Inr fl1" and n: "Null \<notin> set fl1" by blast
  from Cons.prems have "AddFrame Null \<notin> set cs" by simp
  from Cons.IH [OF n this] s show ?case by simp
qed

lemma exec_adds_only:
  "exec h cs fl = Inr fl' \<Longrightarrow> exec h (filter is_add cs) fl = Inr fl'"
proof (induction cs arbitrary: fl)
  case Nil
  then show ?case by simp
next
  case (Cons c cs)
  from Cons.prems obtain fl1 where s: "step h c fl = Inr fl1" and e: "exec h cs fl1 = Inr fl'"
    by (auto split: sum.splits)
  show ?case
  proof (cases c)
    case (AddFrame p)
    with s Cons.IH [OF e] show ?thesis by simp
  next
    case (GetFrame k)
    with s have "fl1 = fl" by (simp add: step_GetFrame)
    with GetFrame Cons.IH [OF e] show ?thesis by simp
  qed
qed

lemma inserted_adds_only: "inserted h (filter is_add cs) = inserted h cs"
  by (induction h cs rule: inserted.induct) simp_all

lemma reach_no_Null:
  assumes "cache_inv h fl hist" "fl \<noteq> [Null]"
  shows "Null \<notin> set fl"
  using assms by (auto simp: cache_inv_def)

section \<open>Evaluation on the concrete store\<close>

lemma sint_small:
  assumes "n < 2 ^ 24"
  shows "sint (word_of_nat n :: 32 word) = int n"
proof -
  have "int n < 2 ^ 31" using assms by simp
  moreover have "- (2 ^ 31) \<le> int n" by simp
  ultimately have "signed_take_bit 31 (int n) = int n"
    by (simp only: signed_take_bit_int_eq_self)
  then show ?thesis by (simp add: signed_of_nat)
qed

lemma demo_heap_key: "key (demo_heap a) = ''v-'' @ show_nat (a mod 100) @ ''.000000''"
proof -
  let ?n = "word_of_nat (a mod 100) :: 32 word"
  have small: "a mod 100 < 2 ^ 24"
    by (rule less_trans [of _ 100]) simp_all
  have s: "sint ?n = int (a mod 100)" using small by (rule sint_small)
  from fixed6_float_of_int [OF sint_abs_32, of ?n] obtain M
    where fx: "fixed6 (float_of_int (sint ?n)) =
        (if sint ?n < 0 then ''-'' else '''') @ show_nat M @ ''.000000''"
      and M: "\<bar>sint ?n\<bar> < 2 ^ 24 \<longrightarrow> M = nat \<bar>sint ?n\<bar>" by blast
  from M s small have "M = a mod 100" by simp
  with fx s have "fixed6 (float_of_int (sint ?n)) = show_nat (a mod 100) @ ''.000000''"
    by simp
  then show ?thesis
    by (simp add: demo_heap_def FrameInfo_ctor_def formatKey_def)
qed

lemma demo_heap_key_eq: "key (demo_heap a) = key (demo_heap b) \<longleftrightarrow> a mod 100 = b mod 100"
  by (auto simp: demo_heap_key dest: show_nat_inj)

lemmas cache_eval = step_def addFrame_def getFrame_def same_key_def has_key_def erase_def
  maxSize_def demo_heap_key_eq

lemma demo_fill_exec: "exec demo_heap demo_fill [] = Inr demo_full"
  by (simp add: demo_fill_def demo_full_def cache_eval)

lemma demo_three_exec:
  "exec demo_heap [AddFrame (Ptr 1), AddFrame (Ptr 2), AddFrame (Ptr 3)] [] =
     Inr [Ptr 3, Ptr 2, Ptr 1]"
  by (simp add: cache_eval)

section \<open>The claims\<close>

text \<open>
  C1. Whatever sequence of \<open>addFrame\<close> calls (and lookups) is run on an empty
  \<open>FrameInfoList\<close>, the list never holds more than 32 entries; and a sequence that
  inserts no null pointer runs without fault, so the bound is about lists that exist.
\<close>

theorem cache_size_bounded:
  "(\<forall>fl. exec h cs [] = Inr fl \<longrightarrow> length fl \<le> 32) \<and>
   (AddFrame Null \<notin> set cs \<longrightarrow> (\<exists>fl. exec h cs [] = Inr fl))"
proof -
  have "length fl \<le> 32" if "exec h cs [] = Inr fl" for fl
    using cache_inv_reach [OF that] by (simp add: cache_inv_def maxSize_def)
  moreover have "\<exists>fl. exec h cs [] = Inr fl" if "AddFrame Null \<notin> set cs"
    using exec_total [of "[]" cs h] that by simp
  ultimately show ?thesis by blast
qed

theorem cache_size_bounded_witness:
  "AddFrame Null \<notin> set (demo_fill @ [AddFrame (Ptr 32), AddFrame (Ptr 33)]) \<and>
   exec demo_heap (demo_fill @ [AddFrame (Ptr 32), AddFrame (Ptr 33)]) [] =
     Inr (Ptr 33 # Ptr 32 # butlast (butlast demo_full)) \<and>
   length (Ptr 33 # Ptr 32 # butlast (butlast demo_full)) \<le> 32"
proof -
  let ?cs = "demo_fill @ [AddFrame (Ptr 32), AddFrame (Ptr 33)]"
  let ?fl = "Ptr 33 # Ptr 32 # butlast (butlast demo_full)"
  have n: "AddFrame Null \<notin> set ?cs" by (simp add: demo_fill_def)
  have e: "exec demo_heap ?cs [] = Inr ?fl"
    by (simp add: demo_fill_def demo_full_def cache_eval)
  from cache_size_bounded [of demo_heap ?cs] e have "length ?fl \<le> 32" by blast
  with n e show ?thesis by blast
qed

text \<open>
  C2. In every list reached from the empty one no two entries have the same key. When
  \<open>addFrame\<close> is called there with a frame whose key is present, the result is the new
  frame in front of the old list without the entry of that key, in the old order: the
  size stays the same and the keys stay distinct.
\<close>

theorem addFrame_existing_key:
  assumes "exec h cs [] = Inr fl"
  shows "distinct (map (key_of h) fl) \<and>
    (Some (key (h a)) \<in> set (map (key_of h) fl) \<longrightarrow>
      (\<exists>fl'. addFrame h (Ptr a) fl = Inr fl' \<and>
         fl' = Ptr a # filter (\<lambda>q. key_of h q \<noteq> Some (key (h a))) fl \<and>
         length fl' = length fl \<and> distinct (map (key_of h) fl')))"
proof -
  have inv: "cache_inv h fl (inserted h cs)"
    using assms by (rule cache_inv_reach)
  then have dist: "distinct (map (key_of h) fl)"
    by (auto simp: cache_inv_def intro: sorted_age_distinct)
  have "\<exists>fl'. addFrame h (Ptr a) fl = Inr fl' \<and>
         fl' = Ptr a # filter (\<lambda>q. key_of h q \<noteq> Some (key (h a))) fl \<and>
         length fl' = length fl \<and> distinct (map (key_of h) fl')"
    if present: "Some (key (h a)) \<in> set (map (key_of h) fl)"
  proof -
    have "fl \<noteq> [Null]" using present by auto
    with inv have nn: "Null \<notin> set fl" by (rule reach_no_Null)
    let ?fl' = "Ptr a # filter (\<lambda>q. key_of h q \<noteq> Some (key (h a))) fl"
    have a: "addFrame h (Ptr a) fl = Inr ?fl'"
      using nn dist present by (rule addFrame_present)
    have "length ?fl' = length fl"
      using length_filter_distinct_key [OF dist present] by simp
    moreover have "distinct (map (key_of h) ?fl')"
      using dist by (simp add: distinct_map_filter notin_image_iff)
    ultimately show ?thesis using a by simp
  qed
  with dist show ?thesis by blast
qed

theorem addFrame_existing_key_witness:
  "exec demo_heap [AddFrame (Ptr 1), AddFrame (Ptr 2), AddFrame (Ptr 3)] [] =
     Inr [Ptr 3, Ptr 2, Ptr 1] \<and>
   Some (key (demo_heap 102)) \<in> set (map (key_of demo_heap) [Ptr 3, Ptr 2, Ptr 1]) \<and>
   addFrame demo_heap (Ptr 102) [Ptr 3, Ptr 2, Ptr 1] = Inr [Ptr 102, Ptr 3, Ptr 1]"
proof -
  let ?fl = "[Ptr 3, Ptr 2, Ptr 1]"
  have m: "Some (key (demo_heap 102)) \<in> set (map (key_of demo_heap) ?fl)"
    by (simp add: demo_heap_key_eq)
  from addFrame_existing_key [OF demo_three_exec, of 102] m
  have "addFrame demo_heap (Ptr 102) ?fl =
      Inr (Ptr 102 # filter (\<lambda>q. key_of demo_heap q \<noteq> Some (key (demo_heap 102))) ?fl)"
    by blast
  then have "addFrame demo_heap (Ptr 102) ?fl = Inr [Ptr 102, Ptr 3, Ptr 1]"
    by (simp add: demo_heap_key_eq)
  with demo_three_exec m show ?thesis by blast
qed

text \<open>
  C3. When \<open>addFrame\<close> is called on a reached list of 32 entries with a frame whose
  key is absent, the result is the new frame in front of the list without its last
  entry: exactly the back of the list goes. That entry is the least recently inserted
  one: every other entry's key was last inserted more recently. The lookups made on the
  way play no part: the same list is reached with every \<open>getFrame\<close> call left out,
  and the insertion history does not record them.
\<close>

theorem addFrame_full_evicts_oldest:
  assumes "exec h cs [] = Inr fl" and "length fl = 32"
    and "Some (key (h a)) \<notin> set (map (key_of h) fl)"
  shows "addFrame h (Ptr a) fl = Inr (Ptr a # butlast fl) \<and>
    fl = butlast fl @ [last fl] \<and>
    (\<forall>q\<in>set (butlast fl).
       age (key_of h q) (inserted h cs) < age (key_of h (last fl)) (inserted h cs)) \<and>
    exec h (filter is_add cs) [] = Inr fl \<and>
    inserted h (filter is_add cs) = inserted h cs"
proof -
  have inv: "cache_inv h fl (inserted h cs)"
    using assms(1) by (rule cache_inv_reach)
  have ne: "fl \<noteq> []" and "fl \<noteq> [Null]" using assms(2) by auto
  with inv have nn: "Null \<notin> set fl" by (simp add: reach_no_Null)
  have a: "addFrame h (Ptr a) fl = Inr (Ptr a # butlast fl)"
    using addFrame_absent [OF nn assms(3)] assms(2) by (simp add: maxSize_def)
  have split: "fl = butlast fl @ [last fl]" using ne by simp
  have "sorted_wrt (\<lambda>a b. age a (inserted h cs) < age b (inserted h cs))
          (map (key_of h) (butlast fl @ [last fl]))"
    using inv split by (simp add: cache_inv_def)
  then have old: "\<forall>q\<in>set (butlast fl).
       age (key_of h q) (inserted h cs) < age (key_of h (last fl)) (inserted h cs)"
    by (simp add: sorted_wrt_append)
  show ?thesis
    using a split old exec_adds_only [OF assms(1)] inserted_adds_only [of h cs] by blast
qed

theorem addFrame_full_evicts_oldest_witness:
  "exec demo_heap demo_fill [] = Inr demo_full \<and> length demo_full = 32 \<and>
   Some (key (demo_heap 32)) \<notin> set (map (key_of demo_heap) demo_full) \<and>
   addFrame demo_heap (Ptr 32) demo_full = Inr (Ptr 32 # butlast demo_full) \<and>
   last demo_full = Ptr 0"
proof -
  have l: "length demo_full = 32" by (simp add: demo_full_def)
  have a: "Some (key (demo_heap 32)) \<notin> set (map (key_of demo_heap) demo_full)"
    by (simp add: demo_full_def demo_heap_key_eq)
  from addFrame_full_evicts_oldest [OF demo_fill_exec l a]
  have "addFrame demo_heap (Ptr 32) demo_full = Inr (Ptr 32 # butlast demo_full)" by blast
  moreover have "last demo_full = Ptr 0" by (simp add: demo_full_def)
  ultimately show ?thesis using demo_fill_exec l a by blast
qed

text \<open>
  C5, as claimed: keys differ as soon as the files differ, the zoom flags differ or the
  frame numbers are at least \<open>10\<^sup>-\<^sup>6\<close> apart. That fails: the minus sign of a negative
  frame number is the same character as the separator, so the file \<open>x-\<close> with frame
  number 2 and the file \<open>x\<close> with frame number -2 get one key.
\<close>

theorem formatKey_collision:
  "''x-'' \<noteq> ''x'' \<and>
   1 / 10 ^ 6 \<le> \<bar>float_val 0x40000000 - float_val 0xC0000000\<bar> \<and>
   formatKey ''x-'' 0x40000000 False = formatKey ''x'' 0xC0000000 False"
proof -
  have "formatKey ''x-'' 0x40000000 False = ''x--2.000000''"
    by (simp add: float_eval show_nat.simps)
  moreover have "formatKey ''x'' 0xC0000000 False = ''x--2.000000''"
    by (simp add: float_eval show_nat.simps)
  moreover have "1 / 10 ^ 6 \<le> \<bar>float_val 0x40000000 - float_val 0xC0000000\<bar>"
    by (simp add: float_eval)
  ultimately show ?thesis by simp
qed

text \<open>
  C5, amended: two triples whose files differ, whose zoom flags differ or whose frame
  numbers are at least \<open>10\<^sup>-\<^sup>6\<close> apart get the same key in one case only: the sign bits
  of the two frame numbers differ, the file of the one with the clear sign bit is the
  file of the other followed by \<open>-\<close>, the zoom flags are equal and the two magnitudes
  print alike. Every other such pair gets two different keys: in particular every pair
  with equal sign bits, and every pair of one file.
\<close>

theorem formatKey_injective_except_dash:
  assumes "f1 \<noteq> f2 \<or> z1 \<noteq> z2 \<or> apart6 n1 n2"
  shows "formatKey f1 n1 z1 = formatKey f2 n2 z2 \<longleftrightarrow>
     z1 = z2 \<and> f_mag_text n1 = f_mag_text n2 \<and>
     (f_sign n1 \<and> \<not> f_sign n2 \<and> f2 = f1 @ ''-'' \<or>
      \<not> f_sign n1 \<and> f_sign n2 \<and> f1 = f2 @ ''-'')"
proof -
  have "\<not> (z1 = z2 \<and> f_mag_text n1 = f_mag_text n2 \<and> f_sign n1 = f_sign n2 \<and> f1 = f2)"
    using assms apart6_mag_text [of n1 n2] by blast
  then show ?thesis
    unfolding formatKey_eq_iff sign_text_eq by blast
qed

theorem formatKey_injective_except_dash_witness:
  "apart6 0x3F800000 0xBFC00000 \<and>
   formatKey ''a.mp4'' 0x3F800000 False \<noteq> formatKey ''a.mp4'' 0xBFC00000 False"
proof -
  have a: "apart6 0x3F800000 0xBFC00000"
    by (simp add: apart6_def f_nan_def float_eval)
  then have "''a.mp4'' \<noteq> ''a.mp4'' \<or> False \<noteq> False \<or> apart6 0x3F800000 0xBFC00000"
    by simp
  from formatKey_injective_except_dash [OF this] a show ?thesis by simp
qed

text \<open>
  C6. \<open>formatKey\<close> is a function of its three arguments: the file, the separator, the
  frame number as \<open>std::fixed\<close> with precision 6 prints it, and then \<open>-z\<close> exactly when
  the zoom flag is set. So the keys with and without the flag differ for every file and
  frame number; and a finite frame number is printed as an integer part, a point and
  exactly six decimal digits.
\<close>

theorem formatKey_zoom_suffix:
  "formatKey f n False = f @ ''-'' @ fixed6 n \<and>
   formatKey f n True = f @ ''-'' @ fixed6 n @ ''-z'' \<and>
   formatKey f n False \<noteq> formatKey f n True \<and>
   (f_finite n \<longrightarrow>
      (\<exists>ip fr. fixed6 n = ip @ ''.'' @ fr \<and> CHR ''.'' \<notin> set ip \<and> length fr = 6 \<and>
         set fr \<subseteq> set ''0123456789''))"
proof -
  have a: "formatKey f n False = f @ ''-'' @ fixed6 n"
    and b: "formatKey f n True = f @ ''-'' @ fixed6 n @ ''-z''"
    by (simp_all add: formatKey_def)
  then have c: "formatKey f n False \<noteq> formatKey f n True" by simp
  have d: "\<exists>ip fr. fixed6 n = ip @ ''.'' @ fr \<and> CHR ''.'' \<notin> set ip \<and> length fr = 6 \<and>
         set fr \<subseteq> set ''0123456789''" if "f_finite n"
  proof -
    let ?ip = "(if f_sign n then ''-'' else '''') @ show_nat (scaled6 n div 10 ^ 6)"
    let ?fr = "digits 6 (scaled6 n mod 10 ^ 6)"
    have "fixed6 n = ?ip @ ''.'' @ ?fr"
      using that by (simp add: fixed6_def show_millionths_def)
    moreover have "CHR ''.'' \<notin> set ?ip"
    proof -
      have "CHR ''.'' \<notin> set (show_nat (scaled6 n div 10 ^ 6))"
        using show_nat_set [of "scaled6 n div 10 ^ 6"] not_digit_dot by blast
      then show ?thesis by simp
    qed
    moreover have "length ?fr = 6" by (rule length_digits)
    moreover have "set ?fr \<subseteq> set ''0123456789''" by (rule digits_set)
    ultimately show ?thesis by blast
  qed
  from a b c d show ?thesis by blast
qed

theorem formatKey_zoom_suffix_witness:
  "f_finite 0x3FC00000 \<and> fixed6 0x3FC00000 = ''1.500000'' \<and>
   formatKey ''a.mp4'' 0x3FC00000 False = ''a.mp4-1.500000'' \<and>
   formatKey ''a.mp4'' 0x3FC00000 True = ''a.mp4-1.500000-z''"
proof -
  have a: "f_finite 0x3FC00000" by (simp add: f_finite_def f_exp_def)
  have b: "fixed6 0x3FC00000 = ''1.500000''"
    by (simp add: float_eval show_nat.simps)
  from formatKey_zoom_suffix [of "''a.mp4''" "0x3FC00000"]
  have "formatKey ''a.mp4'' 0x3FC00000 False = ''a.mp4'' @ ''-'' @ fixed6 0x3FC00000"
    and "formatKey ''a.mp4'' 0x3FC00000 True = ''a.mp4'' @ ''-'' @ fixed6 0x3FC00000 @ ''-z''"
    by blast+
  with a b show ?thesis by simp
qed

text \<open>
  C7. \<open>getFrame\<close> leaves the list as it found it, entries and order, whether the key is
  found or not; and on a list without null entries it always returns.
\<close>

theorem getFrame_unchanged:
  "(\<forall>r. getFrame h k fl = Inr r \<longrightarrow> snd r = fl) \<and>
   (Null \<notin> set fl \<longrightarrow> (\<exists>p. getFrame h k fl = Inr (p, fl)))"
  by (auto simp: getFrame_eq Let_def dest: getFrame_snd)

theorem getFrame_unchanged_witness:
  "Null \<notin> set [Ptr 3, Ptr 2, Ptr 1] \<and>
   getFrame demo_heap (key (demo_heap 2)) [Ptr 3, Ptr 2, Ptr 1] =
     Inr (Ptr 2, [Ptr 3, Ptr 2, Ptr 1])"
proof -
  let ?fl = "[Ptr 3, Ptr 2, Ptr 1]"
  have n: "Null \<notin> set ?fl" by simp
  with getFrame_unchanged [of demo_heap "key (demo_heap 2)" ?fl]
  obtain p where g: "getFrame demo_heap (key (demo_heap 2)) ?fl = Inr (p, ?fl)" by blast
  moreover have "fst (projr (getFrame demo_heap (key (demo_heap 2)) ?fl)) = Ptr 2"
    by (simp add: cache_eval)
  ultimately have "p = Ptr 2" by simp
  with g n show ?thesis by simp
qed

text \<open>
  C8, as claimed: in every cache state a lookup of an absent key returns the null
  pointer rather than failing. That fails: \<open>addFrame(nullptr)\<close> on the empty list
  dereferences nothing and leaves the list \<open>[nullptr]\<close>, no key is present there, and
  any lookup then dereferences the null entry.
\<close>

theorem getFrame_null_entry_fault:
  "exec demo_heap [AddFrame Null] [] = Inr [Null] \<and>
   Some ''k'' \<notin> set (map (key_of demo_heap) [Null]) \<and>
   getFrame demo_heap ''k'' [Null] = Inl NullDeref"
  by (simp add: cache_eval)

text \<open>
  C8, amended: on a list without null entries, looking up a key that no entry has
  returns the null pointer, as a value: no fault, and the list is as before.
\<close>

theorem getFrame_miss:
  assumes "Null \<notin> set fl" and "Some k \<notin> set (map (key_of h) fl)"
  shows "getFrame h k fl = Inr (Null, fl)"
proof -
  have "length (takeWhile (\<lambda>q. key_of h q \<noteq> Some k) fl) = length fl"
    using assms(2) by (simp add: takeWhile_all_iff notin_image_iff)
  then show ?thesis by (simp add: getFrame_eq [OF assms(1)] Let_def)
qed

theorem getFrame_miss_witness:
  "Null \<notin> set [Ptr 3, Ptr 2, Ptr 1] \<and>
   Some (key (demo_heap 7)) \<notin> set (map (key_of demo_heap) [Ptr 3, Ptr 2, Ptr 1]) \<and>
   getFrame demo_heap (key (demo_heap 7)) [Ptr 3, Ptr 2, Ptr 1] =
     Inr (Null, [Ptr 3, Ptr 2, Ptr 1])"
proof -
  let ?fl = "[Ptr 3, Ptr 2, Ptr 1]"
  have n: "Null \<notin> set ?fl" by simp
  have a: "Some (key (demo_heap 7)) \<notin> set (map (key_of demo_heap) ?fl)"
    by (simp add: demo_heap_key_eq)
  from getFrame_miss [OF n a] n a show ?thesis by blast
qed

text \<open>
  C9. The constructor takes an \<open>int\<close>. The key it computes is
  \<open>formatKey(file, frameNum, false)\<close> on that \<open>int\<close> converted to \<open>float\<close>, which is
  also what it stores as frame number. So the key is the file, the separator, a whole
  number (the value itself when it is below \<open>2\<^sup>2\<^sup>4\<close> in magnitude) and six zero
  decimals, and it never ends in the zoom suffix.
\<close>

theorem FrameInfo_ctor_key:
  "key (FrameInfo_ctor u n f) = formatKey f (float_of_int (sint n)) False \<and>
   frameNum (FrameInfo_ctor u n f) = float_of_int (sint n) \<and>
   file (FrameInfo_ctor u n f) = f \<and>
   (\<exists>M. key (FrameInfo_ctor u n f) =
          f @ ''-'' @ (if sint n < 0 then ''-'' else '''') @ show_nat M @ ''.000000'' \<and>
        (\<bar>sint n\<bar> < 2 ^ 24 \<longrightarrow> M = nat \<bar>sint n\<bar>)) \<and>
   (\<forall>pre. key (FrameInfo_ctor u n f) \<noteq> pre @ ''-z'')"
proof -
  have k: "key (FrameInfo_ctor u n f) = formatKey f (float_of_int (sint n)) False"
    by (simp add: FrameInfo_ctor_def)
  from fixed6_float_of_int [OF sint_abs_32, of n] obtain M
    where fx: "fixed6 (float_of_int (sint n)) =
        (if sint n < 0 then ''-'' else '''') @ show_nat M @ ''.000000''"
      and M: "\<bar>sint n\<bar> < 2 ^ 24 \<longrightarrow> M = nat \<bar>sint n\<bar>" by blast
  have shape: "key (FrameInfo_ctor u n f) =
      f @ ''-'' @ (if sint n < 0 then ''-'' else '''') @ show_nat M @ ''.000000''"
    by (simp add: k formatKey_def fx)
  have "key (FrameInfo_ctor u n f) \<noteq> pre @ ''-z''" for pre
  proof
    assume "key (FrameInfo_ctor u n f) = pre @ ''-z''"
    then have "last (key (FrameInfo_ctor u n f)) = CHR ''z''" by simp
    moreover have "last (key (FrameInfo_ctor u n f)) = CHR ''0''"
      by (simp add: shape)
    ultimately show False by simp
  qed
  with k shape M show ?thesis by (simp add: FrameInfo_ctor_def) blast
qed

theorem FrameInfo_ctor_key_witness:
  "\<bar>sint (7 :: 32 word)\<bar> < 2 ^ 24 \<and> key (FrameInfo_ctor zero_frame 7 ''a.mp4'') = ''a.mp4-7.000000''"
proof -
  have s: "\<bar>sint (7 :: 32 word)\<bar> < 2 ^ 24" by simp
  from FrameInfo_ctor_key [of zero_frame 7 "''a.mp4''"] obtain M
    where k: "key (FrameInfo_ctor zero_frame 7 ''a.mp4'') =
        ''a.mp4'' @ ''-'' @ (if sint (7 :: 32 word) < 0 then ''-'' else '''') @
          show_nat M @ ''.000000''"
      and M: "\<bar>sint (7 :: 32 word)\<bar> < 2 ^ 24 \<longrightarrow> M = nat \<bar>sint (7 :: 32 word)\<bar>"
    by blast
  from M s have "M = 7" by simp
  with k have "key (FrameInfo_ctor zero_frame 7 ''a.mp4'') = ''a.mp4-7.000000''"
    by (simp add: show_nat.simps digit_def)
  with s show ?thesis by blast
qed

text \<open>
  C10. Right after \<open>addFrame(frame)\<close>, \<open>getFrame(frame->key)\<close> returns that very
  pointer, whatever the list held before, also another descriptor with the same key; and
  on a list without null entries the insertion always returns.
\<close>

theorem addFrame_then_getFrame:
  "(\<forall>fl'. addFrame h (Ptr a) fl = Inr fl' \<longrightarrow>
      getFrame h (key (h a)) fl' = Inr (Ptr a, fl')) \<and>
   (Null \<notin> set fl \<longrightarrow> (\<exists>fl'. addFrame h (Ptr a) fl = Inr fl'))"
proof -
  have "getFrame h (key (h a)) fl' = Inr (Ptr a, fl')"
    if "addFrame h (Ptr a) fl = Inr fl'" for fl'
  proof -
    from that obtain rest where "fl' = Ptr a # rest"
      by (auto simp: addFrame_def split: sum.splits)
    then show ?thesis by (simp add: getFrame_def has_key_def)
  qed
  moreover have "\<exists>fl'. addFrame h (Ptr a) fl = Inr fl'" if "Null \<notin> set fl"
    using addFrame_total [OF that, of h a] by blast
  ultimately show ?thesis by blast
qed

theorem addFrame_then_getFrame_witness:
  "Null \<notin> set [Ptr 3, Ptr 2, Ptr 1] \<and>
   addFrame demo_heap (Ptr 102) [Ptr 3, Ptr 2, Ptr 1] = Inr [Ptr 102, Ptr 3, Ptr 1] \<and>
   getFrame demo_heap (key (demo_heap 102)) [Ptr 102, Ptr 3, Ptr 1] =
     Inr (Ptr 102, [Ptr 102, Ptr 3, Ptr 1])"
proof -
  have n: "Null \<notin> set [Ptr 3, Ptr 2, Ptr 1]" by simp
  have a: "addFrame demo_heap (Ptr 102) [Ptr 3, Ptr 2, Ptr 1] = Inr [Ptr 102, Ptr 3, Ptr 1]"
    by (simp add: cache_eval)
  from addFrame_then_getFrame [of demo_heap 102 "[Ptr 3, Ptr 2, Ptr 1]"] a
  have "getFrame demo_heap (key (demo_heap 102)) [Ptr 102, Ptr 3, Ptr 1] =
      Inr (Ptr 102, [Ptr 102, Ptr 3, Ptr 1])" by blast
  with n a show ?thesis by blast
qed

end
